theory Spec2Isabelle
  imports Complex_Main "HOL-Library.Multiset"
begin

section \<open>Characters and strings\<close>

text \<open>
  A Python \<open>str\<close> is a sequence of code points. The model uses \<^typ>\<open>string\<close>, whose
  characters are the code points 0..255 (the Latin-1 range of Unicode); the three
  character classes below are Python's own tables on that range.
\<close>

text \<open>The class \<^verbatim>\<open>\w\<close> of the module \<^verbatim>\<open>re\<close> on a \<open>str\<close> pattern: alphanumeric
  code points and the underscore (code 95).\<close>

definition is_word :: "char \<Rightarrow> bool" where
  "is_word c =
     (let n = (of_char c :: nat) in
        (48 \<le> n \<and> n \<le> 57) \<or> (65 \<le> n \<and> n \<le> 90) \<or> n = 95 \<or> (97 \<le> n \<and> n \<le> 122) \<or>
        n = 170 \<or> n = 178 \<or> n = 179 \<or> n = 181 \<or> n = 185 \<or> n = 186 \<or>
        (188 \<le> n \<and> n \<le> 190) \<or> (192 \<le> n \<and> n \<le> 214) \<or> (216 \<le> n \<and> n \<le> 246) \<or>
        248 \<le> n)"

text \<open>The whitespace of \<^verbatim>\<open>str.split()\<close>.\<close>

definition isspace :: "char \<Rightarrow> bool" where
  "isspace c =
     (let n = (of_char c :: nat) in
        (9 \<le> n \<and> n \<le> 13) \<or> (28 \<le> n \<and> n \<le> 32) \<or> n = 133 \<or> n = 160)"

text \<open>\<^verbatim>\<open>str.lower()\<close>, character by character.\<close>

definition lower_char :: "char \<Rightarrow> char" where
  "lower_char c =
     (let n = (of_char c :: nat) in
        if (65 \<le> n \<and> n \<le> 90) \<or> (192 \<le> n \<and> n \<le> 214) \<or> (216 \<le> n \<and> n \<le> 222)
        then char_of (n + 32) else c)"

definition lower :: "string \<Rightarrow> string" where
  "lower s = map lower_char s"

text \<open>
  \<^verbatim>\<open>pattern.sub("", s)\<close> for the default pattern \<^verbatim>\<open>\W+\<close>: scanning from the left,
  a character of \<^verbatim>\<open>\w\<close> is kept, and at a character of \<^verbatim>\<open>\W\<close> the greedy match
  takes the whole run of such characters and replaces it by the empty string.
\<close>

function sub_nonword :: "string \<Rightarrow> string" where
  "sub_nonword [] = []"
| "sub_nonword (c # cs) =
     (if is_word c then c # sub_nonword cs
      else sub_nonword (dropWhile (\<lambda>x. \<not> is_word x) cs))"
  by pat_completeness auto
termination
  by (relation "measure length") (auto simp: less_Suc_eq_le length_dropWhile_le)

text \<open>\<^verbatim>\<open>clean(token)\<close> with the default pattern.\<close>

definition clean :: "string \<Rightarrow> string" where
  "clean token = sub_nonword (lower token)"

text \<open>\<^verbatim>\<open>str.split()\<close> without arguments: the maximal runs of non-whitespace.\<close>

function str_split :: "string \<Rightarrow> string list" where
  "str_split s =
     (case dropWhile isspace s of
        [] \<Rightarrow> []
      | c # cs \<Rightarrow> takeWhile (\<lambda>x. \<not> isspace x) (c # cs)
                # str_split (dropWhile (\<lambda>x. \<not> isspace x) (c # cs)))"
  by pat_completeness auto
termination
proof (relation "measure length")
  show "wf (measure length)" by simp
next
  fix s :: string and c cs
  assume d: "dropWhile isspace s = c # cs"
  have "\<not> isspace c" using d by (metis hd_dropWhile list.sel(1) list.distinct(1))
  then have "length (dropWhile (\<lambda>x. \<not> isspace x) (c # cs)) \<le> length cs"
    by (simp add: length_dropWhile_le)
  moreover have "length (c # cs) \<le> length s"
    using d length_dropWhile_le [of isspace s] by simp
  ultimately show "(dropWhile (\<lambda>x. \<not> isspace x) (c # cs), s) \<in> measure length"
    by simp
qed

declare str_split.simps [simp del]

section \<open>Dictionaries\<close>

text \<open>A \<open>dict\<close> keeps its keys in insertion order: an association list with
  distinct keys. \<open>dict_get\<close> is \<^verbatim>\<open>d.get(k, default)\<close> and \<open>dict_set\<close> is
  \<^verbatim>\<open>d[k] = v\<close>.\<close>

definition dict_get :: "('k \<times> 'v) list \<Rightarrow> 'k \<Rightarrow> 'v \<Rightarrow> 'v" where
  "dict_get d k dflt = (case map_of d k of None \<Rightarrow> dflt | Some v \<Rightarrow> v)"

fun dict_set :: "('k \<times> 'v) list \<Rightarrow> 'k \<Rightarrow> 'v \<Rightarrow> ('k \<times> 'v) list" where
  "dict_set [] k v = [(k, v)]"
| "dict_set ((k', v') # d) k v =
     (if k' = k then (k, v) # d else (k', v') # dict_set d k v)"

section \<open>Document\<close>

record Document =
  path :: string
  term_freq :: "(string \<times> real) list"
  words :: "string list"

text \<open>The first loop of \<^verbatim>\<open>Document.__init__\<close>: the integer counts.\<close>

definition count_word :: "string \<Rightarrow> (string \<times> nat) list \<Rightarrow> (string \<times> nat) list" where
  "count_word word tf =
     (let clean_word = clean word in
        if clean_word \<noteq> [] then dict_set tf clean_word (dict_get tf clean_word 0 + 1)
        else tf)"

definition count_words :: "string list \<Rightarrow> (string \<times> nat) list" where
  "count_words ws = fold count_word ws []"

text \<open>\<^verbatim>\<open>Document(path)\<close>, where \<open>content\<close> is what reading the file at \<open>path\<close>
  returns. The division is Python's true division, taken in the reals.\<close>

definition Document_init :: "string \<Rightarrow> string \<Rightarrow> Document" where
  "Document_init p content =
     (let ws = str_split content;
          counts = count_words ws;
          total_words = (if ws \<noteq> [] then length ws else 1)
      in \<lparr>path = p,
          term_freq = map (\<lambda>(key, c). (key, real c / real total_words)) counts,
          words = ws\<rparr>)"

definition term_frequency :: "Document \<Rightarrow> string \<Rightarrow> real" where
  "term_frequency doc term = dict_get (term_freq doc) (clean term) 0"

definition get_path :: "Document \<Rightarrow> string" where
  "get_path doc = path doc"

definition get_words :: "Document \<Rightarrow> string set" where
  "get_words doc = set (map fst (term_freq doc))"

section \<open>SearchEngine\<close>

text \<open>
  A \<open>Document\<close> object has an identity besides its fields: the set and the
  dictionary of \<^verbatim>\<open>search\<close> hash and compare documents by identity, since the class
  defines neither \<^verbatim>\<open>__eq__\<close> nor \<^verbatim>\<open>__hash__\<close>. An object is modelled as the pair of
  its identity and its (immutable) value; the identity of a document is the number of
  documents the engine created before it.
\<close>

type_synonym Document_obj = "nat \<times> Document"

record SearchEngine =
  path :: string
  count :: nat
  all_index :: "string \<rightharpoonup> Document_obj list"

text \<open>\<^verbatim>\<open>str.endswith\<close> and \<^verbatim>\<open>os.path.join\<close> (POSIX) on two components.\<close>

definition endswith :: "string \<Rightarrow> string \<Rightarrow> bool" where
  "endswith s suffix =
     (length suffix \<le> length s \<and> drop (length s - length suffix) s = suffix)"

definition os_path_join :: "string \<Rightarrow> string \<Rightarrow> string" where
  "os_path_join a b =
     (if take 1 b = ''/'' then b
      else if a = [] \<or> endswith a ''/'' then a @ b
      else a @ ''/'' @ b)"

text \<open>\<^verbatim>\<open>self.all_index.setdefault(word, []).append(new_doc)\<close>\<close>

definition index_word ::
  "Document_obj \<Rightarrow> string \<Rightarrow> (string \<rightharpoonup> Document_obj list) \<Rightarrow> (string \<rightharpoonup> Document_obj list)"
where
  "index_word new_doc word idx =
     idx(word \<mapsto> (case idx word of None \<Rightarrow> [] | Some l \<Rightarrow> l) @ [new_doc])"

text \<open>
  The body of the loop of \<^verbatim>\<open>SearchEngine.__init__\<close> for one directory entry:
  \<open>filename\<close> as \<^verbatim>\<open>os.listdir\<close> gives it and \<open>content\<close> what reading that file
  returns. The inner loop runs over \<^verbatim>\<open>new_doc.get_words()\<close>, a set of distinct
  words; it is run here in the order of the keys of \<open>term_freq\<close>, and
  \<open>index_words_order\<close> below shows that the order makes no difference.
\<close>

definition add_file :: "string \<Rightarrow> string \<Rightarrow> string \<times> string \<Rightarrow> SearchEngine \<Rightarrow> SearchEngine" where
  "add_file p extension entry E =
     (case entry of (filename, content) \<Rightarrow>
        if endswith filename extension then
          let full_path = os_path_join p filename;
              new_doc = (count E, Document_init full_path content)
          in E\<lparr>count := count E + 1,
               all_index := fold (index_word new_doc) (map fst (term_freq (snd new_doc)))
                              (all_index E)\<rparr>
        else E)"

text \<open>\<^verbatim>\<open>SearchEngine(path, extension)\<close> on a directory whose listing is \<open>listing\<close>.\<close>

definition SearchEngine_init :: "string \<Rightarrow> string \<Rightarrow> (string \<times> string) list \<Rightarrow> SearchEngine" where
  "SearchEngine_init p extension listing =
     fold (add_file p extension) listing \<lparr>path = p, count = 0, all_index = Map.empty\<rparr>"

datatype error = ZeroDivisionError | ValueError

text \<open>
  \<^verbatim>\<open>_calculate_idf\<close>: the true division raises on a zero divisor and \<^verbatim>\<open>math.log\<close>
  raises on an argument that is not positive. Floating-point numbers are taken as reals.
\<close>

definition calculate_idf :: "SearchEngine \<Rightarrow> string \<Rightarrow> error + real" where
  "calculate_idf E term =
     (case all_index E term of
        Some l \<Rightarrow>
          if length l = 0 then Inl ZeroDivisionError
          else if real (count E) / real (length l) \<le> 0 then Inl ValueError
          else Inr (ln (real (count E) / real (length l)))
      | None \<Rightarrow> Inr 0)"

definition query_terms :: "string \<Rightarrow> string list" where
  "query_terms query = map clean (str_split query)"

text \<open>The first loop of \<^verbatim>\<open>search\<close>: the set \<^verbatim>\<open>matching_docs\<close>.\<close>

definition matching_docs :: "SearchEngine \<Rightarrow> string list \<Rightarrow> Document_obj set" where
  "matching_docs E terms =
     fold (\<lambda>term S. case all_index E term of Some l \<Rightarrow> S \<union> set l | None \<Rightarrow> S) terms {}"

text \<open>\<^verbatim>\<open>sum(... for term in query_terms)\<close>, from the left, starting at 0.\<close>

fun total_score :: "SearchEngine \<Rightarrow> Document \<Rightarrow> string list \<Rightarrow> real \<Rightarrow> error + real" where
  "total_score E doc [] acc = Inr acc"
| "total_score E doc (term # terms) acc =
     (case calculate_idf E term of
        Inl e \<Rightarrow> Inl e
      | Inr idf \<Rightarrow> total_score E doc terms (acc + idf * term_frequency doc term))"

text \<open>The second loop: \<^verbatim>\<open>big_list\<close>, in the order \<open>iter\<close> in which the set
  \<^verbatim>\<open>matching_docs\<close> yields its elements.\<close>

fun score_docs ::
  "SearchEngine \<Rightarrow> string list \<Rightarrow> Document_obj list \<Rightarrow> error + (Document_obj \<times> real) list"
where
  "score_docs E terms [] = Inr []"
| "score_docs E terms (doc # iter) =
     (case total_score E (snd doc) terms 0 of
        Inl e \<Rightarrow> Inl e
      | Inr s \<Rightarrow>
          (case score_docs E terms iter of
             Inl e \<Rightarrow> Inl e
           | Inr big_list \<Rightarrow> Inr ((doc, s) # big_list)))"

text \<open>
  The order in which Python iterates over a set of objects depends on their addresses,
  so it is an input of the model: \<open>iterates S iter\<close> says that \<open>iter\<close> yields every
  element of \<open>S\<close> once.
\<close>

definition iterates :: "'a set \<Rightarrow> 'a list \<Rightarrow> bool" where
  "iterates S iter = (distinct iter \<and> set iter = S)"

text \<open>
  \<^verbatim>\<open>sorted_docs\<close> of \<^verbatim>\<open>search(query)\<close>: \<^verbatim>\<open>sorted(..., key=..., reverse=True)\<close> is
  stable, so documents of equal score keep the order of \<open>iter\<close>.
\<close>

definition sorted_docs ::
  "SearchEngine \<Rightarrow> string \<Rightarrow> Document_obj list \<Rightarrow> error + (Document_obj \<times> real) list"
where
  "sorted_docs E query iter =
     (case score_docs E (query_terms query) iter of
        Inl e \<Rightarrow> Inl e
      | Inr big_list \<Rightarrow> Inr (sort_key (\<lambda>x. - snd x) big_list))"

definition search :: "SearchEngine \<Rightarrow> string \<Rightarrow> Document_obj list \<Rightarrow> error + string list" where
  "search E query iter =
     (case sorted_docs E query iter of
        Inl e \<Rightarrow> Inl e
      | Inr sd \<Rightarrow> Inr (map (\<lambda>(doc, _). get_path (snd doc)) sd))"

section \<open>Notions used in the statements\<close>

text \<open>The tokens of a document that survive cleaning, and the denominator of its
  frequencies.\<close>

definition surviving :: "string list \<Rightarrow> string list" where
  "surviving ws = filter (\<lambda>w. w \<noteq> []) (map clean ws)"

definition total_words :: "string \<Rightarrow> nat" where
  "total_words content = max 1 (length (str_split content))"

text \<open>The directory entries that the constructor accepts, and the \<open>Document\<close> objects
  it creates from them, in the order of the listing.\<close>

definition accepted :: "string \<Rightarrow> string \<times> string \<Rightarrow> bool" where
  "accepted extension entry = endswith (fst entry) extension"

definition entry_doc :: "string \<Rightarrow> string \<times> string \<Rightarrow> Document" where
  "entry_doc p entry = Document_init (os_path_join p (fst entry)) (snd entry)"

definition documents :: "string \<Rightarrow> string \<Rightarrow> (string \<times> string) list \<Rightarrow> Document_obj list" where
  "documents p extension listing =
     enumerate 0 (map (entry_doc p) (filter (accepted extension) listing))"

text \<open>The list stored under a term of an index (empty when the term is absent), and
  the objects of a list whose vocabulary has the term.\<close>

definition postings :: "(string \<rightharpoonup> 'a list) \<Rightarrow> string \<Rightarrow> 'a list" where
  "postings idx t = (case idx t of None \<Rightarrow> [] | Some l \<Rightarrow> l)"

definition containing :: "string \<Rightarrow> Document_obj list \<Rightarrow> Document_obj list" where
  "containing t ds = filter (\<lambda>d. t \<in> get_words (snd d)) ds"

text \<open>The number that \<open>calculate_idf\<close> returns when it does not raise, and the sum
  that \<open>total_score\<close> accumulates from it.\<close>

definition idf_value :: "SearchEngine \<Rightarrow> string \<Rightarrow> real" where
  "idf_value E term =
     (case all_index E term of
        None \<Rightarrow> 0
      | Some l \<Rightarrow> ln (real (count E) / real (length l)))"

definition score :: "SearchEngine \<Rightarrow> string list \<Rightarrow> Document \<Rightarrow> real" where
  "score E terms doc = (\<Sum>term\<leftarrow>terms. idf_value E term * term_frequency doc term)"

text \<open>A directory listing names every entry once, and no name contains a slash.\<close>

definition listing_ok :: "(string \<times> string) list \<Rightarrow> bool" where
  "listing_ok listing =
     (distinct (map fst listing) \<and> (\<forall>f\<in>set (map fst listing). CHR ''/'' \<notin> set f))"

text \<open>The normalizer as the specification words it: lowercase, then delete whatever is
  not an ASCII letter or digit.\<close>

definition is_ascii_alnum :: "char \<Rightarrow> bool" where
  "is_ascii_alnum c =
     (let n = (of_char c :: nat) in
        (48 \<le> n \<and> n \<le> 57) \<or> (65 \<le> n \<and> n \<le> 90) \<or> (97 \<le> n \<and> n \<le> 122))"

definition normalize_spec :: "string \<Rightarrow> string" where
  "normalize_spec token = filter is_ascii_alnum (lower token)"

text \<open>The idf as the specification words it: normalize the term, then look it up.\<close>

definition idf_spec :: "SearchEngine \<Rightarrow> string \<Rightarrow> real" where
  "idf_spec E term =
     (case all_index E (clean term) of
        None \<Rightarrow> 0
      | Some l \<Rightarrow> ln (real (count E) / real (length l)))"

text \<open>The corpus of the test fixture \<^verbatim>\<open>search_setup\<close> and of the demo folder.\<close>

definition doggos :: "(string \<times> string) list" where
  "doggos = [(''doc1.txt'', ''dogs are the greatest pets''),
             (''doc2.txt'', ''cats seem pretty okay''),
             (''doc3.txt'', ''i love dogs'')]"

definition search_setup :: SearchEngine where
  "search_setup = SearchEngine_init ''doggos'' ''.txt'' doggos"

definition doc1 :: Document where
  "doc1 = Document_init ''doggos/doc1.txt'' ''dogs are the greatest pets''"

definition doc2 :: Document where
  "doc2 = Document_init ''doggos/doc2.txt'' ''cats seem pretty okay''"

definition doc3 :: Document where
  "doc3 = Document_init ''doggos/doc3.txt'' ''i love dogs''"

section \<open>Normalization and term frequency\<close>


lemma of_char_less_256: "(of_char c :: nat) < 256"
  by (cases c) simp

lemma is_word_lower_char: "is_word (lower_char c) = is_word c"
proof -
  have "(of_char c :: nat) < 256" by (rule of_char_less_256)
  then show ?thesis
    by (auto simp: is_word_def lower_char_def Let_def)
qed

lemma filter_dropWhile_neg: "filter P (dropWhile (\<lambda>x. \<not> P x) xs) = filter P xs"
  by (induction xs) auto

lemma sub_nonword_filter: "sub_nonword s = filter is_word s"
  by (induction s rule: sub_nonword.induct) (auto simp: filter_dropWhile_neg)

lemma clean_filter: "clean s = filter is_word (lower s)"
  by (simp add: clean_def sub_nonword_filter)

lemma clean_eq_Nil: "clean s = [] \<longleftrightarrow> (\<forall>c\<in>set s. \<not> is_word c)"
  by (auto simp: clean_filter lower_def filter_empty_conv is_word_lower_char)

text \<open>
  Claim C3, as stated: \<open>clean\<close> deletes every character that is not an ASCII letter or
  digit. The code deletes the matches of \<^verbatim>\<open>\W+\<close>, and the underscore is a word
  character, so the statement fails on \<^verbatim>\<open>a_b\<close>.
\<close>

theorem clean_keeps_underscore: "clean ''a_b'' \<noteq> normalize_spec ''a_b''"
  by code_simp

text \<open>
  Claim C3, amended: \<open>clean\<close> lowercases the token and deletes exactly the characters
  outside \<^verbatim>\<open>\w\<close> (letters, digits and the underscore are kept); it is a total
  function, its result is empty exactly when the token has no word character, and
  the three examples of the specification hold.
\<close>

theorem clean_removes_nonword:
  "clean token = filter is_word (lower token) \<and>
   (clean token = [] \<longleftrightarrow> (\<forall>c\<in>set token. \<not> is_word c)) \<and>
   clean ''Hello!'' = ''hello'' \<and> clean ''DON'T'' = ''dont'' \<and> clean ''...'' = ''''"
proof -
  have "clean ''Hello!'' = ''hello''" by code_simp
  moreover have "clean ''DON'T'' = ''dont''" by code_simp
  moreover have "clean ''...'' = ''''" by code_simp
  ultimately show ?thesis using clean_filter clean_eq_Nil by simp
qed

theorem clean_removes_nonword_witness:
  "\<not> is_word CHR ''?'' \<and> \<not> is_word CHR ''!'' \<and> clean ''?!'' = []"
proof -
  have b1: "\<not> is_word CHR ''?''" by code_simp
  have b2: "\<not> is_word CHR ''!''" by code_simp
  have b: "\<forall>c\<in>set ''?!''. \<not> is_word c" using b1 b2 by simp
  show ?thesis
    using clean_removes_nonword [of "''?!''"] b b1 b2 by blast
qed

lemma map_of_dict_set: "map_of (dict_set d k v) = (map_of d)(k \<mapsto> v)"
  by (induction d k v rule: dict_set.induct) auto

lemma dict_get_dict_set: "dict_get (dict_set d k v) k' dflt = (if k' = k then v else dict_get d k' dflt)"
  by (simp add: dict_get_def map_of_dict_set)

lemma keys_dict_set: "set (map fst (dict_set d k v)) = insert k (set (map fst d))"
  by (induction d k v rule: dict_set.induct) auto

lemma distinct_dict_set: "distinct (map fst d) \<Longrightarrow> distinct (map fst (dict_set d k v))"
proof (induction d k v rule: dict_set.induct)
  case (1 k v) then show ?case by simp
next
  case (2 k' v' d k v)
  then show ?case using keys_dict_set [of d k v] by auto
qed

lemma fold_count_word_get:
  "dict_get (fold count_word ws tf) k 0 = dict_get tf k 0 + count_list (surviving ws) k"
  by (induction ws arbitrary: tf) (auto simp: count_word_def Let_def dict_get_dict_set surviving_def)

lemma keys_count_word:
  "set (map fst (count_word w tf)) = set (map fst tf) \<union> set (surviving [w])"
  unfolding count_word_def Let_def surviving_def
  using keys_dict_set [of tf "clean w"] by auto

lemma surviving_Cons: "set (surviving (w # ws)) = set (surviving [w]) \<union> set (surviving ws)"
  by (auto simp: surviving_def)

lemma fold_count_word_keys:
  "set (map fst (fold count_word ws tf)) = set (map fst tf) \<union> set (surviving ws)"
proof (induction ws arbitrary: tf)
  case Nil
  then show ?case by (simp add: surviving_def)
next
  case (Cons w ws)
  have "set (map fst (fold count_word (w # ws) tf)) =
        set (map fst (count_word w tf)) \<union> set (surviving ws)"
    using Cons.IH [of "count_word w tf"] by simp
  then show ?case
    using keys_count_word [of w tf] surviving_Cons [of w ws] by blast
qed

lemma fold_count_word_distinct:
  "distinct (map fst tf) \<Longrightarrow> distinct (map fst (fold count_word ws tf))"
  by (induction ws arbitrary: tf) (auto simp: count_word_def Let_def distinct_dict_set)

lemma count_words_get: "dict_get (count_words ws) k 0 = count_list (surviving ws) k"
  unfolding count_words_def fold_count_word_get by (simp add: dict_get_def)

lemma count_words_keys: "set (map fst (count_words ws)) = set (surviving ws)"
  unfolding count_words_def fold_count_word_keys by simp

lemma count_words_distinct: "distinct (map fst (count_words ws))"
  by (simp add: count_words_def fold_count_word_distinct)

lemma dict_get_map_real:
  "dict_get (map (\<lambda>(key, c). (key, real c / t)) d) k 0 = real (dict_get d k 0) / t"
  by (induction d) (auto simp: dict_get_def)

lemma term_freq_Document_init:
  "dict_get (term_freq (Document_init p content)) k 0 =
     real (count_list (surviving (str_split content)) k) / real (total_words content)"
proof -
  have "(if str_split content \<noteq> [] then length (str_split content) else 1) = total_words content"
    by (cases "str_split content") (auto simp: total_words_def)
  then show ?thesis
    by (simp add: Document_init_def Let_def dict_get_map_real count_words_get)
qed

text \<open>
  Claim C4: \<open>term_frequency\<close> cleans its argument and returns the number of
  occurrences of the cleaned term among the surviving tokens of the document, divided
  by the number of raw tokens (or by 1 when there is none); it is 0 for a term that
  does not occur, and 1/5 for \<^verbatim>\<open>dogs\<close> in \<^verbatim>\<open>dogs are the greatest pets\<close>.
\<close>

theorem term_frequency_formula:
  "term_frequency (Document_init p content) term =
     real (count_list (filter (\<lambda>w. w \<noteq> []) (map clean (str_split content))) (clean term))
       / real (max 1 (length (str_split content))) \<and>
   (clean term \<notin> set (map clean (str_split content)) \<longrightarrow>
      term_frequency (Document_init p content) term = 0) \<and>
   term_frequency (Document_init p ''dogs are the greatest pets'') ''dogs'' = 1 / 5"
proof -
  have f: "\<And>c t. term_frequency (Document_init p c) t =
     real (count_list (filter (\<lambda>w. w \<noteq> []) (map clean (str_split c))) (clean t))
       / real (max 1 (length (str_split c)))"
    by (simp add: term_frequency_def term_freq_Document_init surviving_def total_words_def)
  have "count_list (filter (\<lambda>w. w \<noteq> []) (map clean (str_split ''dogs are the greatest pets''))) (clean ''dogs'') = 1"
    by code_simp
  moreover have "length (str_split ''dogs are the greatest pets'') = 5" by code_simp
  ultimately have "term_frequency (Document_init p ''dogs are the greatest pets'') ''dogs'' = 1 / 5"
    by (simp add: f)
  moreover have "clean term \<notin> set (map clean (str_split content)) \<Longrightarrow>
      term_frequency (Document_init p content) term = 0"
    by (simp add: f count_list_0_iff)
  ultimately show ?thesis using f by blast
qed

theorem term_frequency_formula_witness:
  "clean ''Cats!'' \<notin> set (map clean (str_split ''i love dogs'')) \<and>
   term_frequency (Document_init ''doc3.txt'' ''i love dogs'') ''Cats!'' = 0"
proof -
  have a: "clean ''Cats!'' \<notin> set (map clean (str_split ''i love dogs''))" by code_simp
  show ?thesis
    using term_frequency_formula [of "''doc3.txt''" "''i love dogs''" "''Cats!''"] a by blast
qed

section \<open>The inverted index\<close>


lemma fold_index_word:
  "distinct ws \<Longrightarrow>
   fold (index_word d) ws idx t =
     (if t \<in> set ws then Some (postings idx t @ [d]) else idx t)"
  by (induction ws arbitrary: idx) (auto simp: index_word_def postings_def)

lemma index_words_order:
  "distinct ws \<Longrightarrow> distinct ws' \<Longrightarrow> set ws = set ws' \<Longrightarrow>
   fold (index_word d) ws idx = fold (index_word d) ws' idx"
  by (rule ext) (simp add: fold_index_word)

lemma keys_Document_init:
  "map fst (term_freq (Document_init p c)) = map fst (count_words (str_split c))"
  by (simp add: Document_init_def Let_def case_prod_unfold comp_def)

lemma distinct_keys_Document_init: "distinct (map fst (term_freq (Document_init p c)))"
  unfolding keys_Document_init by (rule count_words_distinct)

lemma get_words_Document_init: "get_words (Document_init p c) = set (surviving (str_split c))"
  unfolding get_words_def keys_Document_init by (rule count_words_keys)

lemma add_file_rejected: "\<not> accepted ext e \<Longrightarrow> add_file p ext e E = E"
  by (cases e) (simp add: add_file_def accepted_def)

lemma add_file_count: "accepted ext e \<Longrightarrow> count (add_file p ext e E) = Suc (count E)"
  by (cases e) (simp add: add_file_def accepted_def Let_def)

lemma add_file_index:
  assumes "accepted ext e"
  shows "all_index (add_file p ext e E) t =
     (if t \<in> get_words (entry_doc p e)
      then Some (postings (all_index E) t @ [(count E, entry_doc p e)])
      else all_index E t)"
proof -
  obtain f c where e: "e = (f, c)" by (cases e)
  have "all_index (add_file p ext e E) =
        fold (index_word (count E, entry_doc p e)) (map fst (term_freq (entry_doc p e))) (all_index E)"
    using assms by (simp add: e add_file_def accepted_def Let_def entry_doc_def)
  moreover have "distinct (map fst (term_freq (entry_doc p e)))"
    unfolding entry_doc_def by (rule distinct_keys_Document_init)
  ultimately show ?thesis
    by (simp add: fold_index_word get_words_def)
qed

lemma fold_add_file_count:
  "count (fold (add_file p ext) listing E) = count E + length (filter (accepted ext) listing)"
  by (induction listing arbitrary: E) (auto simp: add_file_rejected add_file_count)

lemma fold_add_file_index:
  "all_index (fold (add_file p ext) listing E) t =
     (let new = containing t (enumerate (count E) (map (entry_doc p) (filter (accepted ext) listing)))
      in if new = [] then all_index E t else Some (postings (all_index E) t @ new))"
proof (induction listing arbitrary: E)
  case Nil
  then show ?case by (simp add: containing_def)
next
  case (Cons e listing)
  show ?case
  proof (cases "accepted ext e")
    case False
    then show ?thesis using Cons.IH [of E] by (simp add: add_file_rejected)
  next
    case True
    let ?E = "add_file p ext e E"
    have c: "count ?E = Suc (count E)" using True by (rule add_file_count)
    show ?thesis
      using Cons.IH [of ?E] True
      by (auto simp: c add_file_index [OF True] containing_def postings_def Let_def)
  qed
qed

lemma count_SearchEngine_init:
  "count (SearchEngine_init p ext listing) = length (documents p ext listing)"
  by (simp add: SearchEngine_init_def fold_add_file_count documents_def)

lemma all_index_SearchEngine_init:
  "all_index (SearchEngine_init p ext listing) t =
     (if containing t (documents p ext listing) = [] then None
      else Some (containing t (documents p ext listing)))"
  by (simp add: SearchEngine_init_def fold_add_file_index documents_def postings_def Let_def)

lemma distinct_documents: "distinct (map fst (documents p ext listing))"
  by (simp add: documents_def)

lemma length_containing: "length (containing t ds) \<le> length ds"
  by (simp add: containing_def)

section \<open>Invariants of the built index\<close>

lemma map_of_term_freq_Document_init:
  "map_of (term_freq (Document_init p c)) t =
     (if t \<in> set (surviving (str_split c))
      then Some (real (count_list (surviving (str_split c)) t) / real (total_words c))
      else None)"
proof (cases "t \<in> set (surviving (str_split c))")
  case False
  then have "t \<notin> fst ` set (term_freq (Document_init p c))"
    using get_words_Document_init [of p c] by (simp add: get_words_def)
  then show ?thesis using False by (simp add: map_of_eq_None_iff)
next
  case True
  then have "t \<in> fst ` set (term_freq (Document_init p c))"
    using get_words_Document_init [of p c] by (simp add: get_words_def)
  then obtain v where v: "map_of (term_freq (Document_init p c)) t = Some v"
    by (metis map_of_eq_None_iff not_Some_eq)
  then have "dict_get (term_freq (Document_init p c)) t 0 = v" by (simp add: dict_get_def)
  then show ?thesis using True v term_freq_Document_init [of p c t] by simp
qed

lemma total_words_pos: "0 < total_words c"
  by (simp add: total_words_def)

lemma nonzero_frequency_iff:
  "(\<exists>v. map_of (term_freq (Document_init p c)) t = Some v \<and> v \<noteq> 0)
     \<longleftrightarrow> t \<in> get_words (Document_init p c)"
  using total_words_pos [of c]
  by (auto simp: map_of_term_freq_Document_init get_words_Document_init count_list_0_iff)

lemma term_frequency_nonneg: "0 \<le> term_frequency (Document_init p c) t"
  by (simp add: term_frequency_def term_freq_Document_init)

lemma documents_built:
  "d \<in> set (documents p ext listing) \<Longrightarrow>
     \<exists>e\<in>set listing. accepted ext e \<and> snd d = entry_doc p e"
proof -
  assume m: "d \<in> set (documents p ext listing)"
  have "\<exists>a<length (filter (accepted ext) listing).
          snd d = entry_doc p (filter (accepted ext) listing ! a)"
    by (cases d) (use m in \<open>auto simp: documents_def in_set_enumerate_eq\<close>)
  then obtain a where a: "a < length (filter (accepted ext) listing)"
      and d: "snd d = entry_doc p (filter (accepted ext) listing ! a)"
    by blast
  have "filter (accepted ext) listing ! a \<in> set (filter (accepted ext) listing)"
    using a by (rule nth_mem)
  then show ?thesis using d by auto
qed

lemma distinct_count_list: "distinct xs \<Longrightarrow> x \<in> set xs \<Longrightarrow> count_list xs x = 1"
  by (induction xs) (auto simp: count_list_0_iff)

lemma distinct_documents': "distinct (documents p ext listing)"
  using distinct_documents [of p ext listing] by (simp add: distinct_map)


lemma index_entry:
  assumes "all_index (SearchEngine_init p ext listing) t = Some l"
  shows "l = containing t (documents p ext listing)" and "l \<noteq> []"
  using assms by (auto simp: all_index_SearchEngine_init split: if_splits)

lemma index_entry_length:
  assumes "all_index (SearchEngine_init p ext listing) t = Some l"
  shows "length l \<le> count (SearchEngine_init p ext listing)"
  using index_entry(1) [OF assms] length_containing [of t "documents p ext listing"]
  by (simp add: count_SearchEngine_init)

text \<open>
  Claim C7: in the engine built from a listing, a term is a key of \<open>all_index\<close> if and
  only if some document created from the listing has it in \<open>term_freq\<close> with a
  nonzero frequency; the list stored under a term holds every such document once and
  no other document, whatever the frequency; and its length is at most \<open>count\<close>,
  the number of documents.
\<close>

theorem index_invariant:
  "(t \<in> dom (all_index (SearchEngine_init p ext listing)) \<longleftrightarrow>
      (\<exists>d\<in>set (documents p ext listing).
         \<exists>v. map_of (term_freq (snd d)) t = Some v \<and> v \<noteq> 0)) \<and>
   (\<forall>l. all_index (SearchEngine_init p ext listing) t = Some l \<longrightarrow>
      distinct (map fst l) \<and>
      (\<forall>d\<in>set (documents p ext listing).
         count_list l d = (if t \<in> get_words (snd d) then 1 else 0)) \<and>
      length l \<le> count (SearchEngine_init p ext listing)) \<and>
   count (SearchEngine_init p ext listing) = length (documents p ext listing)"
proof -
  let ?E = "SearchEngine_init p ext listing" and ?D = "documents p ext listing"
  have nz: "(\<exists>v. map_of (term_freq (snd d)) t = Some v \<and> v \<noteq> 0) \<longleftrightarrow> t \<in> get_words (snd d)"
    if dD: "d \<in> set ?D" for d
  proof -
    obtain e where "snd d = entry_doc p e" using documents_built [OF dD] by blast
    then show ?thesis by (simp add: entry_doc_def nonzero_frequency_iff)
  qed
  have "t \<in> dom (all_index ?E) \<longleftrightarrow> containing t ?D \<noteq> []"
    by (simp add: all_index_SearchEngine_init dom_def)
  also have "\<dots> \<longleftrightarrow> (\<exists>d\<in>set ?D. t \<in> get_words (snd d))"
    by (simp add: containing_def filter_empty_conv)
  also have "\<dots> \<longleftrightarrow> (\<exists>d\<in>set ?D. \<exists>v. map_of (term_freq (snd d)) t = Some v \<and> v \<noteq> 0)"
    using nz by blast
  finally have first: "t \<in> dom (all_index ?E) \<longleftrightarrow>
      (\<exists>d\<in>set ?D. \<exists>v. map_of (term_freq (snd d)) t = Some v \<and> v \<noteq> 0)" .
  have second: "distinct (map fst l) \<and>
      (\<forall>d\<in>set ?D. count_list l d = (if t \<in> get_words (snd d) then 1 else 0)) \<and>
      length l \<le> count ?E" if l: "all_index ?E t = Some l" for l
  proof -
    have eq: "l = containing t ?D" using index_entry(1) [OF l] .
    have "distinct (map fst l)"
      unfolding eq containing_def using distinct_documents [of p ext listing]
      by (rule distinct_map_filter)
    moreover have "distinct l"
      unfolding eq containing_def using distinct_documents' [of p ext listing] by simp
    then have "count_list l d = (if t \<in> get_words (snd d) then 1 else 0)" if "d \<in> set ?D" for d
      using that distinct_count_list [of l d] by (auto simp: eq containing_def count_list_0_iff)
    ultimately show ?thesis using index_entry_length [OF l] by blast
  qed
  show ?thesis using first second count_SearchEngine_init [of p ext listing] by blast
qed

section \<open>The corpus of the tests\<close>

lemma documents_doggos: "documents ''doggos'' ''.txt'' doggos = [(0, doc1), (1, doc2), (2, doc3)]"
  by (simp add: documents_def doggos_def accepted_def endswith_def entry_doc_def os_path_join_def
        doc1_def doc2_def doc3_def)

lemma get_words_doc1: "get_words doc1 = {''dogs'', ''are'', ''the'', ''greatest'', ''pets''}"
proof -
  have "surviving (str_split ''dogs are the greatest pets'') =
        [''dogs'', ''are'', ''the'', ''greatest'', ''pets'']" by code_simp
  then show ?thesis by (simp add: doc1_def get_words_Document_init)
qed

lemma get_words_doc2: "get_words doc2 = {''cats'', ''seem'', ''pretty'', ''okay''}"
proof -
  have "surviving (str_split ''cats seem pretty okay'') =
        [''cats'', ''seem'', ''pretty'', ''okay'']" by code_simp
  then show ?thesis by (simp add: doc2_def get_words_Document_init)
qed

lemma get_words_doc3: "get_words doc3 = {''i'', ''love'', ''dogs''}"
proof -
  have "surviving (str_split ''i love dogs'') = [''i'', ''love'', ''dogs'']" by code_simp
  then show ?thesis by (simp add: doc3_def get_words_Document_init)
qed

lemma count_search_setup: "count search_setup = 3"
  by (simp add: search_setup_def count_SearchEngine_init documents_doggos)

lemma index_dogs: "all_index search_setup ''dogs'' = Some [(0, doc1), (2, doc3)]"
  by (simp add: search_setup_def all_index_SearchEngine_init documents_doggos containing_def
        get_words_doc1 get_words_doc2 get_words_doc3)

lemma index_love: "all_index search_setup ''love'' = Some [(2, doc3)]"
  by (simp add: search_setup_def all_index_SearchEngine_init documents_doggos containing_def
        get_words_doc1 get_words_doc2 get_words_doc3)

lemma index_Dogs: "all_index search_setup ''Dogs'' = None"
  by (simp add: search_setup_def all_index_SearchEngine_init documents_doggos containing_def
        get_words_doc1 get_words_doc2 get_words_doc3)

text \<open>The invariant at the term \<^verbatim>\<open>dogs\<close> of the test corpus.\<close>

theorem index_invariant_witness:
  "all_index search_setup ''dogs'' = Some [(0, doc1), (2, doc3)] \<and>
   ''dogs'' \<in> dom (all_index search_setup) \<and>
   (\<exists>d\<in>set (documents ''doggos'' ''.txt'' doggos).
      \<exists>v. map_of (term_freq (snd d)) ''dogs'' = Some v \<and> v \<noteq> 0) \<and>
   distinct (map fst [(0::nat, doc1), (2, doc3)]) \<and>
   ''dogs'' \<in> get_words doc1 \<and> count_list [(0::nat, doc1), (2, doc3)] (0, doc1) = 1 \<and>
   ''dogs'' \<notin> get_words doc2 \<and> count_list [(0::nat, doc1), (2, doc3)] (1, doc2) = 0 \<and>
   length [(0::nat, doc1), (2, doc3)] \<le> count search_setup"
proof -
  have a: "all_index (SearchEngine_init ''doggos'' ''.txt'' doggos) ''dogs'' = Some [(0, doc1), (2, doc3)]"
    using index_dogs by (simp add: search_setup_def)
  then have b: "''dogs'' \<in> dom (all_index (SearchEngine_init ''doggos'' ''.txt'' doggos))"
    by blast
  have c: "\<forall>d\<in>set (documents ''doggos'' ''.txt'' doggos).
      count_list [(0::nat, doc1), (2, doc3)] d = (if ''dogs'' \<in> get_words (snd d) then 1 else 0)"
    using index_invariant [of "''dogs''" "''doggos''" "''.txt''" doggos] a by blast
  have g1: "''dogs'' \<in> get_words doc1" by (simp add: get_words_doc1)
  have g2: "''dogs'' \<notin> get_words doc2" by (simp add: get_words_doc2)
  have m1: "(0, doc1) \<in> set (documents ''doggos'' ''.txt'' doggos)"
    unfolding documents_doggos by simp
  have m2: "(1, doc2) \<in> set (documents ''doggos'' ''.txt'' doggos)"
    unfolding documents_doggos by simp
  have c1: "count_list [(0::nat, doc1), (2, doc3)] (0, doc1) = 1"
    using bspec [OF c m1] g1 by (simp only: snd_conv if_True)
  have c2: "count_list [(0::nat, doc1), (2, doc3)] (1, doc2) = 0"
    using bspec [OF c m2] g2 by (simp only: snd_conv if_False)
  show ?thesis
    using index_invariant [of "''dogs''" "''doggos''" "''.txt''" doggos] a b c1 c2 g1 g2
    unfolding search_setup_def by blast
qed

section \<open>Inverse document frequency and scores\<close>

lemma calculate_idf_entry:
  assumes "all_index E t = Some l" and "l \<noteq> []" and "length l \<le> count E"
  shows "calculate_idf E t = Inr (ln (real (count E) / real (length l)))"
    and "0 \<le> ln (real (count E) / real (length l))"
proof -
  have pos: "0 < length l" using assms(2) by simp
  then have one: "1 \<le> real (count E) / real (length l)"
    using assms(3) by (simp add: le_divide_eq)
  then show "0 \<le> ln (real (count E) / real (length l))" by simp
  have "\<not> real (count E) / real (length l) \<le> 0" using one by linarith
  then show "calculate_idf E t = Inr (ln (real (count E) / real (length l)))"
    using pos assms(1) by (simp add: calculate_idf_def)
qed

lemma calculate_idf_built:
  "calculate_idf (SearchEngine_init p ext listing) t =
     Inr (idf_value (SearchEngine_init p ext listing) t)"
proof (cases "all_index (SearchEngine_init p ext listing) t")
  case None
  then show ?thesis by (simp add: calculate_idf_def idf_value_def)
next
  case (Some l)
  then show ?thesis
    using calculate_idf_entry(1) [OF Some index_entry(2) [OF Some] index_entry_length [OF Some]]
    by (simp add: idf_value_def)
qed

lemma idf_value_built_nonneg: "0 \<le> idf_value (SearchEngine_init p ext listing) t"
proof (cases "all_index (SearchEngine_init p ext listing) t")
  case None
  then show ?thesis by (simp add: idf_value_def)
next
  case (Some l)
  then show ?thesis
    using calculate_idf_entry(2) [OF Some index_entry(2) [OF Some] index_entry_length [OF Some]]
    by (simp add: idf_value_def)
qed

lemma total_score_value:
  "(\<And>t. t \<in> set terms \<Longrightarrow> calculate_idf E t = Inr (idf_value E t)) \<Longrightarrow>
   total_score E doc terms acc = Inr (acc + score E terms doc)"
  by (induction terms arbitrary: acc) (auto simp: score_def add.assoc)

lemma score_docs_value:
  "(\<And>t. t \<in> set terms \<Longrightarrow> calculate_idf E t = Inr (idf_value E t)) \<Longrightarrow>
   score_docs E terms iter = Inr (map (\<lambda>d. (d, score E terms (snd d))) iter)"
  by (induction iter) (auto simp: total_score_value)

lemma fold_matching:
  "fold (\<lambda>term S. case all_index E term of Some l \<Rightarrow> S \<union> set l | None \<Rightarrow> S) terms S0 =
     S0 \<union> (\<Union>t\<in>set terms. set (postings (all_index E) t))"
  by (induction terms arbitrary: S0) (auto simp: postings_def split: option.splits)

lemma matching_docs_eq:
  "matching_docs E terms = (\<Union>t\<in>set terms. set (postings (all_index E) t))"
  by (simp add: matching_docs_def fold_matching)

lemma postings_built:
  "postings (all_index (SearchEngine_init p ext listing)) t = containing t (documents p ext listing)"
  by (simp add: postings_def all_index_SearchEngine_init)

lemma matching_docs_built:
  "matching_docs (SearchEngine_init p ext listing) terms =
     {d \<in> set (documents p ext listing). \<exists>t\<in>set terms. t \<in> get_words (snd d)}"
  by (auto simp: matching_docs_eq postings_built containing_def)

lemma score_built_nonneg:
  assumes "d \<in> set (documents p ext listing)"
  shows "0 \<le> score (SearchEngine_init p ext listing) terms (snd d)"
proof -
  obtain e where "snd d = entry_doc p e" using documents_built [OF assms] by blast
  then have "0 \<le> term_frequency (snd d) t" for t
    by (simp add: entry_doc_def term_frequency_nonneg)
  then show ?thesis
    unfolding score_def by (intro sum_list_nonneg) (auto simp: idf_value_built_nonneg)
qed

text \<open>
  Claim C10: in the engine built from a listing, every list of the index is non-empty
  and no longer than \<open>count\<close>, so \<open>calculate_idf\<close> raises neither on the division
  nor on the logarithm and returns a number that is at least 0; and the second loop of
  \<open>search\<close> gives every matching document a score that is at least 0.
\<close>

theorem idf_and_scores_defined:
  "(\<forall>l. all_index (SearchEngine_init p ext listing) t = Some l \<longrightarrow>
       l \<noteq> [] \<and> length l \<le> count (SearchEngine_init p ext listing)) \<and>
   (\<exists>v. calculate_idf (SearchEngine_init p ext listing) t = Inr v \<and> 0 \<le> v) \<and>
   (iterates (matching_docs (SearchEngine_init p ext listing) terms) iter \<longrightarrow>
      (\<exists>big_list. score_docs (SearchEngine_init p ext listing) terms iter = Inr big_list \<and>
         map fst big_list = iter \<and> (\<forall>x\<in>set big_list. 0 \<le> snd x)))"
proof -
  let ?E = "SearchEngine_init p ext listing"
  have a: "\<forall>l. all_index ?E t = Some l \<longrightarrow> l \<noteq> [] \<and> length l \<le> count ?E"
    using index_entry(2) index_entry_length by blast
  have b: "\<exists>v. calculate_idf ?E t = Inr v \<and> 0 \<le> v"
    using calculate_idf_built [of p ext listing t] idf_value_built_nonneg [of p ext listing t]
    by blast
  have c: "\<exists>big_list. score_docs ?E terms iter = Inr big_list \<and>
         map fst big_list = iter \<and> (\<forall>x\<in>set big_list. 0 \<le> snd x)"
    if it: "iterates (matching_docs ?E terms) iter"
  proof -
    have sub: "set iter \<subseteq> set (documents p ext listing)"
      using it by (auto simp: iterates_def matching_docs_built)
    have "score_docs ?E terms iter = Inr (map (\<lambda>d. (d, score ?E terms (snd d))) iter)"
      by (rule score_docs_value) (rule calculate_idf_built)
    moreover have "map fst (map (\<lambda>d. (d, score ?E terms (snd d))) iter) = iter"
      by (simp add: comp_def)
    moreover have "\<forall>x\<in>set (map (\<lambda>d. (d, score ?E terms (snd d))) iter). 0 \<le> snd x"
      using sub score_built_nonneg [of _ p ext listing terms] by auto
    ultimately show ?thesis by blast
  qed
  show ?thesis using a b c by blast
qed

lemma query_love_dogs: "query_terms ''love dogs'' = [''love'', ''dogs'']"
  by code_simp

lemma matching_love_dogs:
  "matching_docs search_setup [''love'', ''dogs''] = {(0, doc1), (2, doc3)}"
  by (auto simp: matching_docs_eq postings_def index_love index_dogs)

text \<open>The same at the test corpus, for the query terms \<^verbatim>\<open>love\<close> and \<^verbatim>\<open>dogs\<close>.\<close>

theorem idf_and_scores_defined_witness:
  "all_index search_setup ''dogs'' = Some [(0, doc1), (2, doc3)] \<and>
   [(0::nat, doc1), (2, doc3)] \<noteq> [] \<and>
   length [(0::nat, doc1), (2, doc3)] \<le> count search_setup \<and>
   iterates (matching_docs search_setup [''love'', ''dogs'']) [(2, doc3), (0, doc1)] \<and>
   (\<exists>big_list. score_docs search_setup [''love'', ''dogs''] [(2, doc3), (0, doc1)] = Inr big_list \<and>
      map fst big_list = [(2, doc3), (0, doc1)] \<and> (\<forall>x\<in>set big_list. 0 \<le> snd x))"
proof -
  have a: "all_index (SearchEngine_init ''doggos'' ''.txt'' doggos) ''dogs'' = Some [(0, doc1), (2, doc3)]"
    using index_dogs by (simp add: search_setup_def)
  have b: "iterates (matching_docs (SearchEngine_init ''doggos'' ''.txt'' doggos) [''love'', ''dogs''])
             [(2, doc3), (0, doc1)]"
    using matching_love_dogs by (auto simp: search_setup_def iterates_def)
  show ?thesis
    using idf_and_scores_defined [of "''doggos''" "''.txt''" doggos "''dogs''"
        "[''love'', ''dogs'']" "[(2, doc3), (0, doc1)]"] a b
    unfolding search_setup_def by blast
qed

text \<open>
  Claim C2, as stated: idf normalizes its argument before the lookup. The code looks the
  argument up as it is: on the test corpus \<^verbatim>\<open>Dogs\<close> is not a key of the index, so
  the result is 0, while the normalized term \<^verbatim>\<open>dogs\<close> is in two of three documents.
\<close>

theorem idf_does_not_normalize:
  "calculate_idf search_setup ''Dogs'' \<noteq> Inr (idf_spec search_setup ''Dogs'')"
proof -
  have "clean ''Dogs'' = ''dogs''" by code_simp
  then have "idf_spec search_setup ''Dogs'' = ln (3 / 2)"
    by (simp add: idf_spec_def index_dogs count_search_setup)
  moreover have "calculate_idf search_setup ''Dogs'' = Inr 0"
    by (simp add: calculate_idf_def index_Dogs)
  ultimately show ?thesis by simp
qed

text \<open>
  Claim C2, amended: on the engine built from a listing, \<open>calculate_idf\<close> looks its
  argument up as given; it returns 0 when the argument is not a key of the index and
  otherwise the logarithm of \<open>count\<close> divided by the length of the list of the key,
  which is 0 for a term that is in every document.
\<close>

theorem calculate_idf_value:
  "(all_index (SearchEngine_init p ext listing) term = None \<longrightarrow>
      calculate_idf (SearchEngine_init p ext listing) term = Inr 0) \<and>
   (\<forall>l. all_index (SearchEngine_init p ext listing) term = Some l \<longrightarrow>
      calculate_idf (SearchEngine_init p ext listing) term =
        Inr (ln (real (count (SearchEngine_init p ext listing)) / real (length l))) \<and>
      (length l = count (SearchEngine_init p ext listing) \<longrightarrow>
         calculate_idf (SearchEngine_init p ext listing) term = Inr 0))"
proof -
  let ?E = "SearchEngine_init p ext listing"
  have "calculate_idf ?E term = Inr (ln (real (count ?E) / real (length l))) \<and>
        (length l = count ?E \<longrightarrow> calculate_idf ?E term = Inr 0)"
    if l: "all_index ?E term = Some l" for l
  proof -
    have v: "calculate_idf ?E term = Inr (ln (real (count ?E) / real (length l)))"
      using calculate_idf_entry(1) [OF l index_entry(2) [OF l] index_entry_length [OF l]] .
    have "0 < length l" using index_entry(2) [OF l] by simp
    then have "length l = count ?E \<Longrightarrow> ln (real (count ?E) / real (length l)) = 0"
      by simp
    then show ?thesis using v by simp
  qed
  then show ?thesis by (simp add: calculate_idf_def)
qed

text \<open>An absent term, a term of two documents in three, and a term of the only
  document of a corpus.\<close>

theorem calculate_idf_value_witness:
  "all_index search_setup ''Dogs'' = None \<and> calculate_idf search_setup ''Dogs'' = Inr 0 \<and>
   all_index search_setup ''dogs'' = Some [(0, doc1), (2, doc3)] \<and>
   calculate_idf search_setup ''dogs'' = Inr (ln (3 / 2)) \<and>
   all_index (SearchEngine_init ''d'' ''.txt'' [(''a.txt'', ''hello'')]) ''hello'' =
     Some [(0, Document_init ''d/a.txt'' ''hello'')] \<and>
   length [(0::nat, Document_init ''d/a.txt'' ''hello'')] =
     count (SearchEngine_init ''d'' ''.txt'' [(''a.txt'', ''hello'')]) \<and>
   calculate_idf (SearchEngine_init ''d'' ''.txt'' [(''a.txt'', ''hello'')]) ''hello'' = Inr 0"
proof -
  let ?E = "SearchEngine_init ''doggos'' ''.txt'' doggos"
  let ?F = "SearchEngine_init ''d'' ''.txt'' [(''a.txt'', ''hello'')]"
  have a: "all_index ?E ''Dogs'' = None"
    using index_Dogs by (simp add: search_setup_def)
  have b: "all_index ?E ''dogs'' = Some [(0, doc1), (2, doc3)]"
    using index_dogs by (simp add: search_setup_def)
  have c: "count ?E = 3" using count_search_setup by (simp add: search_setup_def)
  have ds: "documents ''d'' ''.txt'' [(''a.txt'', ''hello'')] = [(0, Document_init ''d/a.txt'' ''hello'')]"
    by (simp add: documents_def accepted_def endswith_def entry_doc_def os_path_join_def)
  have "surviving (str_split ''hello'') = [''hello'']" by code_simp
  then have gw: "get_words (Document_init ''d/a.txt'' ''hello'') = {''hello''}"
    by (simp add: get_words_Document_init)
  have d: "all_index ?F ''hello'' = Some [(0, Document_init ''d/a.txt'' ''hello'')]"
    by (simp add: all_index_SearchEngine_init ds containing_def gw)
  have e: "count ?F = 1" by (simp add: count_SearchEngine_init ds)
  show ?thesis
    using calculate_idf_value [of "''doggos''" "''.txt''" doggos "''Dogs''"]
      calculate_idf_value [of "''doggos''" "''.txt''" doggos "''dogs''"]
      calculate_idf_value [of "''d''" "''.txt''" "[(''a.txt'', ''hello'')]" "''hello''"]
      a b c d e
    unfolding search_setup_def by simp
qed

text \<open>
  Claim C8: of two indexed terms, the one whose list is strictly shorter has the strictly
  larger idf, provided the lists are non-empty and no longer than \<open>count\<close>; neither
  call raises.
\<close>

theorem idf_strictly_monotone:
  assumes "all_index E a = Some la" and "all_index E b = Some lb"
    and "0 < length la" and "length la < length lb" and "length lb \<le> count E"
  shows "\<exists>ia ib. calculate_idf E a = Inr ia \<and> calculate_idf E b = Inr ib \<and> ib < ia"
proof -
  have la: "la \<noteq> []" and lb: "lb \<noteq> []" using assms(3,4) by auto
  have ca: "length la \<le> count E" using assms(4,5) by simp
  have va: "calculate_idf E a = Inr (ln (real (count E) / real (length la)))"
    using calculate_idf_entry(1) [OF assms(1) la ca] .
  have vb: "calculate_idf E b = Inr (ln (real (count E) / real (length lb)))"
    using calculate_idf_entry(1) [OF assms(2) lb assms(5)] .
  have cpos: "0 < real (count E)" using assms(3,4,5) by simp
  have "real (count E) / real (length lb) < real (count E) / real (length la)"
    using assms(3,4) cpos by (simp add: frac_less2)
  moreover have "0 < real (length lb)" using lb by simp
  then have "0 < real (count E) / real (length lb)"
    using cpos by (rule divide_pos_pos [rotated])
  ultimately have "ln (real (count E) / real (length lb)) < ln (real (count E) / real (length la))"
    by simp
  then show ?thesis using va vb by blast
qed

text \<open>On the test corpus, \<^verbatim>\<open>love\<close> is rarer than \<^verbatim>\<open>dogs\<close>.\<close>

theorem idf_strictly_monotone_witness:
  "all_index search_setup ''love'' = Some [(2, doc3)] \<and>
   all_index search_setup ''dogs'' = Some [(0, doc1), (2, doc3)] \<and>
   0 < length [(2::nat, doc3)] \<and> length [(2::nat, doc3)] < length [(0::nat, doc1), (2, doc3)] \<and>
   length [(0::nat, doc1), (2, doc3)] \<le> count search_setup \<and>
   (\<exists>ia ib. calculate_idf search_setup ''love'' = Inr ia \<and>
      calculate_idf search_setup ''dogs'' = Inr ib \<and> ib < ia)"
proof -
  have c: "length [(0::nat, doc1), (2, doc3)] \<le> count search_setup"
    by (simp add: count_search_setup)
  show ?thesis
    using idf_strictly_monotone [OF index_love index_dogs _ _ c] index_love index_dogs c
    by simp
qed

section \<open>Search\<close>

lemma insort_key_map:
  "insort_key f (g x) (map g xs) = map g (insort_key (\<lambda>y. f (g y)) x xs)"
  by (induction xs) auto

lemma sort_key_map: "sort_key f (map g xs) = map g (sort_key (\<lambda>y. f (g y)) xs)"
  by (induction xs) (auto simp: insort_key_map)

lemma sorted_docs_built:
  "sorted_docs (SearchEngine_init p ext listing) q iter =
     Inr (map (\<lambda>d. (d, score (SearchEngine_init p ext listing) (query_terms q) (snd d)))
            (sort_key (\<lambda>d. - score (SearchEngine_init p ext listing) (query_terms q) (snd d)) iter))"
proof -
  let ?E = "SearchEngine_init p ext listing"
  have "score_docs ?E (query_terms q) iter =
          Inr (map (\<lambda>d. (d, score ?E (query_terms q) (snd d))) iter)"
    by (rule score_docs_value) (rule calculate_idf_built)
  then show ?thesis by (simp add: sorted_docs_def sort_key_map)
qed

lemma search_built:
  "search (SearchEngine_init p ext listing) q iter =
     Inr (map (\<lambda>d. get_path (snd d))
            (sort_key (\<lambda>d. - score (SearchEngine_init p ext listing) (query_terms q) (snd d)) iter))"
  by (simp add: search_def sorted_docs_built comp_def)

lemma iterates_empty: "iterates {} iter \<longleftrightarrow> iter = []"
  by (auto simp: iterates_def)

lemma str_split_Nil: "str_split [] = []"
  by (simp add: str_split.simps)

text \<open>
  Claim C6: on the engine built from any listing, \<open>search\<close> returns a list and raises
  nothing; the list is empty when the query has no term, when no term of the query is
  a key of the index, and when the corpus has no document; the empty string is a query
  without terms; and on a corpus without documents \<open>calculate_idf\<close> returns 0 for
  every term.
\<close>

theorem search_never_raises:
  "(\<exists>r. search (SearchEngine_init p ext listing) q iter = Inr r) \<and>
   (iterates (matching_docs (SearchEngine_init p ext listing) (query_terms q)) iter \<longrightarrow>
      (query_terms q = [] \<or>
       (\<forall>t\<in>set (query_terms q). all_index (SearchEngine_init p ext listing) t = None) \<or>
       documents p ext listing = [] \<longrightarrow>
         search (SearchEngine_init p ext listing) q iter = Inr [])) \<and>
   query_terms [] = [] \<and>
   (documents p ext listing = [] \<longrightarrow>
      calculate_idf (SearchEngine_init p ext listing) t = Inr 0)"
proof -
  let ?E = "SearchEngine_init p ext listing"
  have a: "\<exists>r. search ?E q iter = Inr r" by (simp add: search_built)
  have b: "search ?E q iter = Inr []"
    if it: "iterates (matching_docs ?E (query_terms q)) iter"
      and c: "query_terms q = [] \<or> (\<forall>t\<in>set (query_terms q). all_index ?E t = None) \<or>
              documents p ext listing = []"
  proof -
    have "matching_docs ?E (query_terms q) = {}"
      using c by (auto simp: matching_docs_eq postings_def all_index_SearchEngine_init containing_def)
    then have "iter = []" using it by (simp add: iterates_empty)
    then show ?thesis by (simp add: search_built)
  qed
  have d: "calculate_idf ?E t = Inr 0" if "documents p ext listing = []"
    using that by (simp add: calculate_idf_def all_index_SearchEngine_init containing_def)
  have e: "query_terms [] = []" by (simp add: query_terms_def str_split_Nil)
  show ?thesis using a b d e by blast
qed

lemma index_birds: "all_index search_setup ''birds'' = None"
  by (simp add: search_setup_def all_index_SearchEngine_init documents_doggos containing_def
        get_words_doc1 get_words_doc2 get_words_doc3)

lemma query_birds: "query_terms ''birds'' = [''birds'']"
  by code_simp

text \<open>A query with two matches, the empty query, a query without match, and the
  corpus of an empty directory.\<close>

theorem search_never_raises_witness:
  "(\<exists>r. search search_setup ''love dogs'' [(2, doc3), (0, doc1)] = Inr r) \<and>
   iterates (matching_docs search_setup (query_terms [])) [] \<and>
   search search_setup [] [] = Inr [] \<and>
   query_terms ''birds'' = [''birds''] \<and> all_index search_setup ''birds'' = None \<and>
   iterates (matching_docs search_setup (query_terms ''birds'')) [] \<and>
   search search_setup ''birds'' [] = Inr [] \<and>
   documents ''doggos'' ''.txt'' [] = [] \<and>
   iterates (matching_docs (SearchEngine_init ''doggos'' ''.txt'' []) (query_terms ''birds'')) [] \<and>
   search (SearchEngine_init ''doggos'' ''.txt'' []) ''birds'' [] = Inr [] \<and>
   calculate_idf (SearchEngine_init ''doggos'' ''.txt'' []) ''x'' = Inr 0"
proof -
  let ?E = "SearchEngine_init ''doggos'' ''.txt'' doggos"
  let ?F = "SearchEngine_init ''doggos'' ''.txt'' []"
  have e: "search_setup = ?E" by (simp add: search_setup_def)
  have q0: "query_terms [] = []" by (simp add: query_terms_def str_split_Nil)
  have i0: "iterates (matching_docs ?E (query_terms [])) []"
    by (simp add: q0 matching_docs_eq iterates_empty)
  have nb: "\<forall>t\<in>set (query_terms ''birds''). all_index ?E t = None"
    using index_birds by (simp add: query_birds e)
  have ib: "iterates (matching_docs ?E (query_terms ''birds'')) []"
    using index_birds by (simp add: query_birds e matching_docs_eq postings_def iterates_empty)
  have d0: "documents ''doggos'' ''.txt'' [] = []" by (simp add: documents_def)
  have i1: "iterates (matching_docs ?F (query_terms ''birds'')) []"
    by (simp add: matching_docs_eq postings_def all_index_SearchEngine_init d0 containing_def
          iterates_empty)
  show ?thesis
    using search_never_raises [of "''doggos''" "''.txt''" doggos "''love dogs''" "[(2, doc3), (0, doc1)]"]
      search_never_raises [of "''doggos''" "''.txt''" doggos "[]" "[]"]
      search_never_raises [of "''doggos''" "''.txt''" doggos "''birds''" "[]"]
      search_never_raises [of "''doggos''" "''.txt''" "[]" "''birds''" "[]" "''x''"]
      i0 nb ib d0 i1 query_birds index_birds
    unfolding e by blast
qed

subsection \<open>Paths identify documents\<close>

lemma os_path_join_inj:
  assumes "CHR ''/'' \<notin> set b" and "CHR ''/'' \<notin> set b'"
    and "os_path_join a b = os_path_join a b'"
  shows "b = b'"
proof -
  have "take 1 b \<noteq> ''/''" using assms(1) by (cases b) auto
  moreover have "take 1 b' \<noteq> ''/''" using assms(2) by (cases b') auto
  ultimately show ?thesis using assms(3) by (auto simp: os_path_join_def split: if_splits)
qed

lemma get_path_entry_doc: "get_path (entry_doc p e) = os_path_join p (fst e)"
  by (simp add: get_path_def entry_doc_def Document_init_def Let_def)

lemma entry_unique:
  assumes "listing_ok listing" and "e \<in> set listing" and "e' \<in> set listing"
    and "os_path_join p (fst e) = os_path_join p (fst e')"
  shows "e = e'"
proof -
  have "fst e = fst e'"
    using assms by (intro os_path_join_inj [of "fst e" "fst e'" p]) (auto simp: listing_ok_def)
  moreover have "inj_on fst (set listing)"
    using assms(1) by (simp add: listing_ok_def distinct_map)
  ultimately show ?thesis using assms(2,3) by (auto dest: inj_onD)
qed

lemma map_snd_enumerate_comp: "map (\<lambda>d. g (snd d)) (enumerate n xs) = map g xs"
  by (induction xs arbitrary: n) auto

lemma paths_inj:
  assumes "listing_ok listing"
  shows "inj_on (\<lambda>d. get_path (snd d)) (set (documents p ext listing))"
proof -
  let ?L = "filter (accepted ext) listing"
  have "map (\<lambda>d. get_path (snd d)) (documents p ext listing) =
        map (\<lambda>e. os_path_join p (fst e)) ?L"
    by (simp add: documents_def map_snd_enumerate_comp get_path_entry_doc comp_def)
  moreover have "distinct (map (\<lambda>e. os_path_join p (fst e)) ?L)"
  proof -
    have "distinct ?L" using assms by (simp add: listing_ok_def distinct_map)
    moreover have "inj_on (\<lambda>e. os_path_join p (fst e)) (set ?L)"
      using entry_unique [OF assms] by (auto intro!: inj_onI)
    ultimately show ?thesis by (simp add: distinct_map)
  qed
  ultimately have "distinct (map (\<lambda>d. get_path (snd d)) (documents p ext listing))" by simp
  then show ?thesis by (simp add: distinct_map)
qed

subsection \<open>The ranking\<close>

lemma iterates_built_subset:
  "iterates (matching_docs (SearchEngine_init p ext listing) terms) iter \<Longrightarrow>
   set iter \<subseteq> set (documents p ext listing)"
  by (auto simp: iterates_def matching_docs_built)

lemma sorted_desc_sort_key:
  fixes f :: "'a \<Rightarrow> real"
  shows "sorted_wrt (\<lambda>a b. f b \<le> f a) (sort_key (\<lambda>d. - f d) xs)"
proof -
  have "sorted (map (\<lambda>d. - f d) (sort_key (\<lambda>d. - f d) xs))" by (rule sorted_sort_key)
  then show ?thesis by (simp add: sorted_map)
qed

lemma total_score_built:
  "total_score (SearchEngine_init p ext listing) doc terms 0 =
     Inr (score (SearchEngine_init p ext listing) terms doc)"
  using total_score_value [of terms "SearchEngine_init p ext listing" doc 0]
    calculate_idf_built [of p ext listing]
  by simp

lemma path_of_entry:
  assumes "listing_ok listing" and "d \<in> set (documents p ext listing)"
  shows "\<exists>!e. e \<in> set listing \<and> accepted ext e \<and> os_path_join p (fst e) = get_path (snd d)"
proof -
  obtain e where e: "e \<in> set listing" "accepted ext e" "snd d = entry_doc p e"
    using documents_built [OF assms(2)] by blast
  have j: "os_path_join p (fst e) = get_path (snd d)"
    using e(3) by (simp add: get_path_entry_doc)
  show ?thesis
  proof (rule ex1I [of _ e])
    show "e \<in> set listing \<and> accepted ext e \<and> os_path_join p (fst e) = get_path (snd d)"
      using e(1,2) j by simp
  next
    fix e' assume "e' \<in> set listing \<and> accepted ext e' \<and> os_path_join p (fst e') = get_path (snd d)"
    then have "e' \<in> set listing" and "os_path_join p (fst e') = os_path_join p (fst e)"
      using j by simp_all
    then show "e' = e" using entry_unique [OF assms(1) _ e(1)] by blast
  qed
qed

lemma sorted_same_mset:
  fixes xs ys :: "real list"
  assumes "sorted xs" and "sorted ys" and "mset xs = mset ys"
  shows "xs = ys"
proof -
  have "sort ys = xs" using assms(1,3) by (rule properties_for_sort [rotated])
  moreover have "sort ys = ys" using assms(2) by (rule sorted_sort_id)
  ultimately show ?thesis by simp
qed


text \<open>
  Claim C5: for the engine built from a directory listing and any order in which the
  candidate set is iterated, \<open>search\<close> returns the paths of \<open>sorted_docs\<close>, whose
  scores (the sums that \<open>total_score\<close> computes) never increase along the list; no
  path occurs twice; and every returned path is the path of exactly one accepted entry
  of the listing.
\<close>

theorem search_sorted_distinct:
  assumes "listing_ok listing"
    and "iterates (matching_docs (SearchEngine_init p ext listing) (query_terms q)) iter"
  shows "\<exists>sd. sorted_docs (SearchEngine_init p ext listing) q iter = Inr sd \<and>
           search (SearchEngine_init p ext listing) q iter =
             Inr (map (\<lambda>x. get_path (snd (fst x))) sd) \<and>
           (\<forall>x\<in>set sd. total_score (SearchEngine_init p ext listing) (snd (fst x))
                          (query_terms q) 0 = Inr (snd x)) \<and>
           sorted_wrt (\<lambda>x y. snd y \<le> snd x) sd \<and>
           distinct (map (\<lambda>x. get_path (snd (fst x))) sd) \<and>
           (\<forall>r\<in>set (map (\<lambda>x. get_path (snd (fst x))) sd).
              \<exists>!e. e \<in> set listing \<and> accepted ext e \<and> os_path_join p (fst e) = r)"
proof -
  define E where "E = SearchEngine_init p ext listing"
  define sc where "sc = (\<lambda>d::Document_obj. score E (query_terms q) (snd d))"
  define S where "S = sort_key (\<lambda>d. - sc d) iter"
  define sd where "sd = map (\<lambda>d. (d, sc d)) S"
  have sub: "set S \<subseteq> set (documents p ext listing)"
    using iterates_built_subset [OF assms(2)] by (simp add: S_def)
  have dist: "distinct S" using assms(2) by (simp add: iterates_def S_def)
  have paths: "map (\<lambda>x. get_path (snd (fst x))) sd = map (\<lambda>d. get_path (snd d)) S"
    by (simp add: sd_def comp_def)
  have 1: "sorted_docs E q iter = Inr sd"
    unfolding E_def sd_def S_def sc_def by (rule sorted_docs_built)
  have 2: "search E q iter = Inr (map (\<lambda>x. get_path (snd (fst x))) sd)"
    unfolding paths unfolding E_def S_def sc_def by (rule search_built)
  have 3: "\<forall>x\<in>set sd. total_score E (snd (fst x)) (query_terms q) 0 = Inr (snd x)"
    by (simp add: sd_def sc_def E_def total_score_built)
  have 4: "sorted_wrt (\<lambda>x y. snd y \<le> snd x) sd"
    using sorted_desc_sort_key [of sc iter] by (simp add: sd_def S_def sorted_wrt_map)
  have inj: "inj_on (\<lambda>d. get_path (snd d)) (set S)"
    using paths_inj [OF assms(1), of p ext] sub by (rule inj_on_subset)
  have 5: "distinct (map (\<lambda>x. get_path (snd (fst x))) sd)"
    unfolding paths using dist inj by (simp add: distinct_map)
  have 6: "\<forall>r\<in>set (map (\<lambda>x. get_path (snd (fst x))) sd).
             \<exists>!e. e \<in> set listing \<and> accepted ext e \<and> os_path_join p (fst e) = r"
  proof
    fix r assume "r \<in> set (map (\<lambda>x. get_path (snd (fst x))) sd)"
    then have "r \<in> (\<lambda>d. get_path (snd d)) ` set S" unfolding paths by simp
    then obtain d where d: "d \<in> set S" and r: "r = get_path (snd d)" by blast
    have "d \<in> set (documents p ext listing)" using d sub by blast
    then show "\<exists>!e. e \<in> set listing \<and> accepted ext e \<and> os_path_join p (fst e) = r"
      unfolding r using assms(1) by (rule path_of_entry [rotated])
  qed
  have "sorted_docs E q iter = Inr sd \<and>
        search E q iter = Inr (map (\<lambda>x. get_path (snd (fst x))) sd) \<and>
        (\<forall>x\<in>set sd. total_score E (snd (fst x)) (query_terms q) 0 = Inr (snd x)) \<and>
        sorted_wrt (\<lambda>x y. snd y \<le> snd x) sd \<and>
        distinct (map (\<lambda>x. get_path (snd (fst x))) sd) \<and>
        (\<forall>r\<in>set (map (\<lambda>x. get_path (snd (fst x))) sd).
           \<exists>!e. e \<in> set listing \<and> accepted ext e \<and> os_path_join p (fst e) = r)"
    using 1 2 3 4 5 6 by simp
  then show ?thesis unfolding E_def by (rule exI)
qed

lemma listing_ok_doggos: "listing_ok doggos"
  by (simp add: listing_ok_def doggos_def)

lemma iterates_love_dogs:
  "iterates (matching_docs (SearchEngine_init ''doggos'' ''.txt'' doggos) (query_terms ''love dogs''))
     [(0, doc1), (2, doc3)]"
  using matching_love_dogs by (auto simp: search_setup_def iterates_def query_love_dogs)

text \<open>The test corpus and the query \<^verbatim>\<open>love dogs\<close>, iterating \<open>doc1\<close> before
  \<open>doc3\<close>.\<close>

theorem search_sorted_distinct_witness:
  "listing_ok doggos \<and>
   iterates (matching_docs (SearchEngine_init ''doggos'' ''.txt'' doggos) (query_terms ''love dogs''))
     [(0, doc1), (2, doc3)] \<and>
   (\<exists>sd. sorted_docs (SearchEngine_init ''doggos'' ''.txt'' doggos) ''love dogs''
            [(0, doc1), (2, doc3)] = Inr sd \<and>
      search (SearchEngine_init ''doggos'' ''.txt'' doggos) ''love dogs'' [(0, doc1), (2, doc3)] =
        Inr (map (\<lambda>x. get_path (snd (fst x))) sd) \<and>
      sorted_wrt (\<lambda>x y. snd y \<le> snd x) sd \<and>
      distinct (map (\<lambda>x. get_path (snd (fst x))) sd) \<and>
      (\<forall>r\<in>set (map (\<lambda>x. get_path (snd (fst x))) sd).
         \<exists>!e. e \<in> set doggos \<and> accepted ''.txt'' e \<and> os_path_join ''doggos'' (fst e) = r))"
proof -
  obtain sd where
    "sorted_docs (SearchEngine_init ''doggos'' ''.txt'' doggos) ''love dogs''
            [(0, doc1), (2, doc3)] = Inr sd \<and>
      search (SearchEngine_init ''doggos'' ''.txt'' doggos) ''love dogs'' [(0, doc1), (2, doc3)] =
        Inr (map (\<lambda>x. get_path (snd (fst x))) sd) \<and>
      (\<forall>x\<in>set sd. total_score (SearchEngine_init ''doggos'' ''.txt'' doggos) (snd (fst x))
                          (query_terms ''love dogs'') 0 = Inr (snd x)) \<and>
      sorted_wrt (\<lambda>x y. snd y \<le> snd x) sd \<and>
      distinct (map (\<lambda>x. get_path (snd (fst x))) sd) \<and>
      (\<forall>r\<in>set (map (\<lambda>x. get_path (snd (fst x))) sd).
         \<exists>!e. e \<in> set doggos \<and> accepted ''.txt'' e \<and> os_path_join ''doggos'' (fst e) = r)"
    using search_sorted_distinct [OF listing_ok_doggos iterates_love_dogs] by (elim exE)
  then show ?thesis using listing_ok_doggos iterates_love_dogs by (intro conjI exI [of _ sd]) simp_all
qed

text \<open>
  Claim C9: the engine is a function of the listing, so two builds from the same
  listing are equal; what can differ between two runs of the same query is the order
  in which the candidate set is iterated. For any two such orders both searches
  return, the ranked lists hold the same documents with the same scores at the same
  positions, the results are permutations of each other, and they are identical when
  no two candidates have the same score.
\<close>

theorem search_deterministic_up_to_ties:
  assumes "iterates (matching_docs (SearchEngine_init p ext listing) (query_terms q)) iter1"
    and "iterates (matching_docs (SearchEngine_init p ext listing) (query_terms q)) iter2"
  shows "\<exists>s1 s2 r1 r2.
           sorted_docs (SearchEngine_init p ext listing) q iter1 = Inr s1 \<and>
           sorted_docs (SearchEngine_init p ext listing) q iter2 = Inr s2 \<and>
           search (SearchEngine_init p ext listing) q iter1 = Inr r1 \<and>
           search (SearchEngine_init p ext listing) q iter2 = Inr r2 \<and>
           mset s1 = mset s2 \<and> map snd s1 = map snd s2 \<and> mset r1 = mset r2 \<and>
           (inj_on snd (set s1) \<longrightarrow> r1 = r2)"
proof -
  define E where "E = SearchEngine_init p ext listing"
  define sc where "sc = (\<lambda>d::Document_obj. score E (query_terms q) (snd d))"
  define k where "k = (\<lambda>d. - sc d)"
  define g where "g = (\<lambda>d. (d, sc d))"
  define pa where "pa = (\<lambda>d::Document_obj. get_path (snd d))"
  define S1 where "S1 = sort_key k iter1"
  define S2 where "S2 = sort_key k iter2"
  have m: "mset iter1 = mset iter2"
    using assms by (simp add: iterates_def set_eq_iff_mset_eq_distinct [symmetric])
  then have mS: "mset S1 = mset S2" by (simp add: S1_def S2_def)
  have "map k S1 = map k S2"
  proof (rule sorted_same_mset)
    show "sorted (map k S1)" unfolding S1_def by (rule sorted_sort_key)
    show "sorted (map k S2)" unfolding S2_def by (rule sorted_sort_key)
    show "mset (map k S1) = mset (map k S2)" using mS by simp
  qed
  then have "map uminus (map k S1) = map uminus (map k S2)" by simp
  then have keys: "map snd (map g S1) = map snd (map g S2)"
    by (simp add: comp_def k_def g_def)
  have ms: "mset (map g S1) = mset (map g S2)" using mS by simp
  have mr: "mset (map pa S1) = mset (map pa S2)" using mS by simp
  have eq: "map pa S1 = map pa S2" if inj: "inj_on snd (set (map g S1))"
  proof -
    have "inj_on k (set iter1)"
    proof (rule inj_onI)
      fix a b assume a: "a \<in> set iter1" and b: "b \<in> set iter1" and ab: "k a = k b"
      have ga: "g a \<in> set (map g S1)" and gb: "g b \<in> set (map g S1)"
        using a b by (simp_all add: S1_def)
      have sn: "snd (g a) = snd (g b)" using ab by (simp add: g_def k_def)
      have "g a = g b" by (rule inj_onD [OF inj sn ga gb])
      then show "a = b" by (simp add: g_def)
    qed
    with m have "S1 = S2" unfolding S1_def S2_def by (rule sort_key_eq_sort_key)
    then show ?thesis by simp
  qed
  have sd1: "sorted_docs E q iter1 = Inr (map g S1)"
    unfolding E_def g_def S1_def k_def sc_def E_def by (rule sorted_docs_built)
  have sd2: "sorted_docs E q iter2 = Inr (map g S2)"
    unfolding E_def g_def S2_def k_def sc_def E_def by (rule sorted_docs_built)
  have r1: "search E q iter1 = Inr (map pa S1)"
    unfolding E_def pa_def S1_def k_def sc_def E_def by (rule search_built)
  have r2: "search E q iter2 = Inr (map pa S2)"
    unfolding E_def pa_def S2_def k_def sc_def E_def by (rule search_built)
  have "sorted_docs E q iter1 = Inr (map g S1) \<and> sorted_docs E q iter2 = Inr (map g S2) \<and>
        search E q iter1 = Inr (map pa S1) \<and> search E q iter2 = Inr (map pa S2) \<and>
        mset (map g S1) = mset (map g S2) \<and> map snd (map g S1) = map snd (map g S2) \<and>
        mset (map pa S1) = mset (map pa S2) \<and>
        (inj_on snd (set (map g S1)) \<longrightarrow> map pa S1 = map pa S2)"
    using sd1 sd2 r1 r2 ms keys mr eq by blast
  then show ?thesis unfolding E_def by (intro exI)
qed

section \<open>The end-to-end scenario\<close>

lemma term_frequency_Document_init:
  "term_frequency (Document_init p c) t =
     real (count_list (surviving (str_split c)) (clean t)) / real (total_words c)"
  by (simp add: term_frequency_def term_freq_Document_init)

lemma tf_doc1_love: "term_frequency doc1 ''love'' = 0"
proof -
  have "count_list (surviving (str_split ''dogs are the greatest pets'')) (clean ''love'') = 0"
    by code_simp
  then show ?thesis by (simp add: doc1_def term_frequency_Document_init)
qed

lemma tf_doc1_dogs: "term_frequency doc1 ''dogs'' = 1 / 5"
proof -
  have "count_list (surviving (str_split ''dogs are the greatest pets'')) (clean ''dogs'') = 1"
    by code_simp
  moreover have "total_words ''dogs are the greatest pets'' = 5" by code_simp
  ultimately show ?thesis by (simp add: doc1_def term_frequency_Document_init)
qed

lemma tf_doc3_love: "term_frequency doc3 ''love'' = 1 / 3"
proof -
  have "count_list (surviving (str_split ''i love dogs'')) (clean ''love'') = 1"
    by code_simp
  moreover have "total_words ''i love dogs'' = 3" by code_simp
  ultimately show ?thesis by (simp add: doc3_def term_frequency_Document_init)
qed

lemma tf_doc3_dogs: "term_frequency doc3 ''dogs'' = 1 / 3"
proof -
  have "count_list (surviving (str_split ''i love dogs'')) (clean ''dogs'') = 1"
    by code_simp
  moreover have "total_words ''i love dogs'' = 3" by code_simp
  ultimately show ?thesis by (simp add: doc3_def term_frequency_Document_init)
qed

lemma idf_value_love: "idf_value search_setup ''love'' = ln 3"
  by (simp add: idf_value_def index_love count_search_setup)

lemma idf_value_dogs: "idf_value search_setup ''dogs'' = ln (3 / 2)"
  by (simp add: idf_value_def index_dogs count_search_setup)

lemma score_doc1: "score search_setup [''love'', ''dogs''] doc1 = ln (3 / 2) / 5"
  by (simp add: score_def idf_value_love idf_value_dogs tf_doc1_love tf_doc1_dogs)

lemma score_doc3: "score search_setup [''love'', ''dogs''] doc3 = ln 3 / 3 + ln (3 / 2) / 3"
  by (simp add: score_def idf_value_love idf_value_dogs tf_doc3_love tf_doc3_dogs)

lemma score_doc1_less_doc3:
  "score search_setup [''love'', ''dogs''] doc1 < score search_setup [''love'', ''dogs''] doc3"
proof -
  have a: "0 < ln (3 :: real)" by simp
  have b: "0 < ln (3 / 2 :: real)" by simp
  have "ln (3 / 2 :: real) / 5 < ln (3 / 2) / 3" using b by simp
  also have "\<dots> < ln 3 / 3 + ln (3 / 2) / 3" using a by simp
  finally show ?thesis unfolding score_doc1 score_doc3 .
qed

lemma get_path_docs:
  "get_path doc1 = ''doggos/doc1.txt''" "get_path doc3 = ''doggos/doc3.txt''"
  by (simp_all add: get_path_def doc1_def doc3_def Document_init_def Let_def)

lemma iterates_pair:
  assumes "iterates {a, b} iter" and "a \<noteq> b"
  shows "iter = [a, b] \<or> iter = [b, a]"
proof -
  have d: "distinct iter" and s: "set iter = {a, b}" using assms(1) by (simp_all add: iterates_def)
  have "length iter = card {a, b}" using distinct_card [OF d] s by simp
  then have "length iter = 2" using assms(2) by simp
  then obtain x y where xy: "iter = [x, y]"
    by (auto simp: length_Suc_conv numeral_2_eq_2)
  then show ?thesis using s by (auto simp: doubleton_eq_iff)
qed

lemma search_love_dogs:
  "search search_setup ''love dogs'' [(0, doc1), (2, doc3)] =
     Inr [''doggos/doc3.txt'', ''doggos/doc1.txt'']"
  "search search_setup ''love dogs'' [(2, doc3), (0, doc1)] =
     Inr [''doggos/doc3.txt'', ''doggos/doc1.txt'']"
  using score_doc1_less_doc3
  by (simp_all add: search_setup_def [symmetric] search_built [of "''doggos''" "''.txt''" doggos, folded search_setup_def]
        query_love_dogs get_path_docs)


text \<open>
  Claim C1: on the corpus of the three test documents, for every order in which the
  candidate set is iterated, \<^verbatim>\<open>search("love dogs")\<close> returns the path of \<open>doc3\<close>
  and then the path of \<open>doc1\<close>, and nothing else (so \<open>doc2\<close> is excluded); the
  score of \<open>doc3\<close> is strictly greater than the score of \<open>doc1\<close>.
\<close>

theorem search_love_dogs_ranking:
  assumes "iterates (matching_docs search_setup (query_terms ''love dogs'')) iter"
  shows "search search_setup ''love dogs'' iter = Inr [''doggos/doc3.txt'', ''doggos/doc1.txt''] \<and>
         get_path doc3 = ''doggos/doc3.txt'' \<and> get_path doc1 = ''doggos/doc1.txt'' \<and>
         (\<exists>s1 s3. total_score search_setup doc1 (query_terms ''love dogs'') 0 = Inr s1 \<and>
                  total_score search_setup doc3 (query_terms ''love dogs'') 0 = Inr s3 \<and>
                  s1 < s3)"
proof -
  have "iterates {(0, doc1), (2, doc3)} iter"
    using assms by (simp add: query_love_dogs matching_love_dogs)
  then have "iter = [(0, doc1), (2, doc3)] \<or> iter = [(2, doc3), (0, doc1)]"
    by (rule iterates_pair) simp
  then have r: "search search_setup ''love dogs'' iter =
                  Inr [''doggos/doc3.txt'', ''doggos/doc1.txt'']"
    using search_love_dogs by blast
  have t: "total_score search_setup doc (query_terms ''love dogs'') 0 =
             Inr (score search_setup [''love'', ''dogs''] doc)" for doc
    unfolding search_setup_def query_love_dogs by (rule total_score_built)
  show ?thesis
    using r t [of doc1] t [of doc3] score_doc1_less_doc3 get_path_docs by blast
qed

text \<open>The same with \<open>doc1\<close> iterated first.\<close>

theorem search_love_dogs_ranking_witness:
  "iterates (matching_docs search_setup (query_terms ''love dogs'')) [(0, doc1), (2, doc3)] \<and>
   search search_setup ''love dogs'' [(0, doc1), (2, doc3)] =
     Inr [''doggos/doc3.txt'', ''doggos/doc1.txt'']"
proof -
  have a: "iterates (matching_docs search_setup (query_terms ''love dogs'')) [(0, doc1), (2, doc3)]"
    using iterates_love_dogs by (simp add: search_setup_def)
  show ?thesis using search_love_dogs_ranking [OF a] a by blast
qed

lemma iterates_love_dogs_rev:
  "iterates (matching_docs (SearchEngine_init ''doggos'' ''.txt'' doggos) (query_terms ''love dogs''))
     [(2, doc3), (0, doc1)]"
  using matching_love_dogs by (auto simp: search_setup_def iterates_def query_love_dogs)

text \<open>The two iteration orders of the candidates of \<^verbatim>\<open>love dogs\<close>: the scores
  differ, so the two results are the same list.\<close>

theorem search_deterministic_up_to_ties_witness:
  "iterates (matching_docs (SearchEngine_init ''doggos'' ''.txt'' doggos) (query_terms ''love dogs''))
     [(0, doc1), (2, doc3)] \<and>
   iterates (matching_docs (SearchEngine_init ''doggos'' ''.txt'' doggos) (query_terms ''love dogs''))
     [(2, doc3), (0, doc1)] \<and>
   (\<exists>s1 s2 r1 r2.
      sorted_docs (SearchEngine_init ''doggos'' ''.txt'' doggos) ''love dogs'' [(0, doc1), (2, doc3)] = Inr s1 \<and>
      sorted_docs (SearchEngine_init ''doggos'' ''.txt'' doggos) ''love dogs'' [(2, doc3), (0, doc1)] = Inr s2 \<and>
      search (SearchEngine_init ''doggos'' ''.txt'' doggos) ''love dogs'' [(0, doc1), (2, doc3)] = Inr r1 \<and>
      search (SearchEngine_init ''doggos'' ''.txt'' doggos) ''love dogs'' [(2, doc3), (0, doc1)] = Inr r2 \<and>
      mset s1 = mset s2 \<and> map snd s1 = map snd s2 \<and> mset r1 = mset r2 \<and>
      inj_on snd (set s1) \<and> r1 = r2)"
proof -
  let ?E = "SearchEngine_init ''doggos'' ''.txt'' doggos"
  obtain s1 s2 r1 r2 where h:
      "sorted_docs ?E ''love dogs'' [(0, doc1), (2, doc3)] = Inr s1"
      "sorted_docs ?E ''love dogs'' [(2, doc3), (0, doc1)] = Inr s2"
      "search ?E ''love dogs'' [(0, doc1), (2, doc3)] = Inr r1"
      "search ?E ''love dogs'' [(2, doc3), (0, doc1)] = Inr r2"
      "mset s1 = mset s2" "map snd s1 = map snd s2" "mset r1 = mset r2"
      "inj_on snd (set s1) \<longrightarrow> r1 = r2"
    using search_deterministic_up_to_ties [OF iterates_love_dogs iterates_love_dogs_rev] by blast
  have "s1 = map (\<lambda>d. (d, score ?E [''love'', ''dogs''] (snd d)))
               (sort_key (\<lambda>d. - score ?E [''love'', ''dogs''] (snd d)) [(0, doc1), (2, doc3)])"
    using h(1) by (simp add: sorted_docs_built query_love_dogs)
  then have "set s1 = {((0, doc1), score ?E [''love'', ''dogs''] doc1),
                        ((2, doc3), score ?E [''love'', ''dogs''] doc3)}"
    by auto
  then have "inj_on snd (set s1)"
    using score_doc1_less_doc3 by (simp add: search_setup_def)
  then show ?thesis
    using h iterates_love_dogs iterates_love_dogs_rev by blast
qed

section \<open>Documents of equal score\<close>

text \<open>
  Documents of equal score: in a corpus of two files with the same content every score
  of the query \<^verbatim>\<open>x\<close> is 0, and the result follows the iteration order of the set.
\<close>

lemma ties_follow_iteration_order:
  "search (SearchEngine_init ''d'' ''.txt'' [(''a.txt'', ''x''), (''b.txt'', ''x'')]) ''x''
     [(0, Document_init ''d/a.txt'' ''x''), (1, Document_init ''d/b.txt'' ''x'')] =
     Inr [''d/a.txt'', ''d/b.txt'']"
  "search (SearchEngine_init ''d'' ''.txt'' [(''a.txt'', ''x''), (''b.txt'', ''x'')]) ''x''
     [(1, Document_init ''d/b.txt'' ''x''), (0, Document_init ''d/a.txt'' ''x'')] =
     Inr [''d/b.txt'', ''d/a.txt'']"
proof -
  let ?F = "SearchEngine_init ''d'' ''.txt'' [(''a.txt'', ''x''), (''b.txt'', ''x'')]"
  have ds: "documents ''d'' ''.txt'' [(''a.txt'', ''x''), (''b.txt'', ''x'')] =
              [(0, Document_init ''d/a.txt'' ''x''), (1, Document_init ''d/b.txt'' ''x'')]"
    by (simp add: documents_def accepted_def endswith_def entry_doc_def os_path_join_def)
  have "surviving (str_split ''x'') = [''x'']" by code_simp
  then have gw: "get_words (Document_init p ''x'') = {''x''}" for p
    by (simp add: get_words_Document_init)
  have "all_index ?F ''x'' =
          Some [(0, Document_init ''d/a.txt'' ''x''), (1, Document_init ''d/b.txt'' ''x'')]"
    by (simp add: all_index_SearchEngine_init ds containing_def gw)
  moreover have "count ?F = 2" by (simp add: count_SearchEngine_init ds)
  ultimately have "idf_value ?F ''x'' = 0" by (simp add: idf_value_def)
  moreover have q: "query_terms ''x'' = [''x'']" by code_simp
  ultimately have z: "score ?F (query_terms ''x'') doc = 0" for doc
    by (simp add: score_def)
  have p: "get_path (Document_init p c) = p" for p c
    by (simp add: get_path_def Document_init_def Let_def)
  show "search ?F ''x'' [(0, Document_init ''d/a.txt'' ''x''), (1, Document_init ''d/b.txt'' ''x'')] =
          Inr [''d/a.txt'', ''d/b.txt'']"
    by (simp add: search_built z p)
  show "search ?F ''x'' [(1, Document_init ''d/b.txt'' ''x''), (0, Document_init ''d/a.txt'' ''x'')] =
          Inr [''d/b.txt'', ''d/a.txt'']"
    by (simp add: search_built z p)
qed

end
